theory Spec2Isabelle
  imports Main "HOL-Library.Sublist"
begin

section \<open>Python strings\<close>

text \<open>
  A Python \<open>str\<close> is a sequence of code points. It is modelled as a \<open>string\<close> whose
  characters stand for the code points 0 to 255, one \<open>char\<close> per code point, so that
  \<open>raw_text[:100]\<close> is \<open>take 100\<close>. \<open>isspace\<close> lists the code points of that range for
  which \<open>str.isspace\<close> holds; \<open>str.strip()\<close> removes exactly these at both ends, and
  the class \<open>\s\<close> of a \<open>str\<close> pattern matches exactly these.
\<close>

definition isspace :: "char \<Rightarrow> bool" where
  "isspace c = (c \<in> set [CHR 0x09, CHR 0x0A, CHR 0x0B, CHR 0x0C, CHR 0x0D,
                           CHR 0x1C, CHR 0x1D, CHR 0x1E, CHR 0x1F, CHR 0x20,
                           CHR 0x85, CHR 0xA0])"

definition lstrip :: "string \<Rightarrow> string" where
  "lstrip s = dropWhile isspace s"

definition rstrip :: "string \<Rightarrow> string" where
  "rstrip s = rev (dropWhile isspace (rev s))"

definition strip :: "string \<Rightarrow> string" where
  "strip s = rstrip (lstrip s)"

definition startswith :: "string \<Rightarrow> string \<Rightarrow> bool" where
  "startswith s p = prefix p s"

definition endswith :: "string \<Rightarrow> string \<Rightarrow> bool" where
  "endswith s p = suffix p s"

section \<open>The regular expressions of \<open>re.search\<close>\<close>

text \<open>
  The two patterns of \<open>extract_json_payload\<close> use literal characters, the class \<open>\s\<close>,
  a class that matches every character (\<open>[\s\S]\<close>, and \<open>.\<close> under \<open>re.DOTALL\<close>), a greedy
  optional part, greedy and lazy repetition of a class, and one capturing group. The
  matcher below is the backtracking search of Python's \<open>re\<close>: alternatives are tried in
  priority order and the first complete match wins. The continuation \<open>k\<close> is the rest of
  the pattern; it receives the input still unread and the text of group 1.
\<close>

datatype cset = Chr char | Space | Any

fun member_cset :: "cset \<Rightarrow> char \<Rightarrow> bool" where
  "member_cset (Chr a) c = (c = a)"
| "member_cset Space c = isspace c"
| "member_cset Any c = True"

datatype regex =
    Eps
  | Sym cset
  | Seq regex regex
  | Opt regex
  | Star cset
  | LazyStar cset
  | Group regex

fun rmatch :: "regex \<Rightarrow> string \<Rightarrow> string option \<Rightarrow> (string \<Rightarrow> string option \<Rightarrow> 'r option) \<Rightarrow> 'r option" where
  "rmatch Eps xs g k = k xs g"
| "rmatch (Sym a) xs g k =
     (case xs of [] \<Rightarrow> None | x # xs' \<Rightarrow> if member_cset a x then k xs' g else None)"
| "rmatch (Seq r s) xs g k = rmatch r xs g (\<lambda>ys g'. rmatch s ys g' k)"
| "rmatch (Opt r) xs g k =
     (case rmatch r xs g k of Some v \<Rightarrow> Some v | None \<Rightarrow> k xs g)"
| "rmatch (Star a) xs g k =
     (case xs of
        [] \<Rightarrow> k xs g
      | x # xs' \<Rightarrow>
          if member_cset a x
          then (case rmatch (Star a) xs' g k of Some v \<Rightarrow> Some v | None \<Rightarrow> k xs g)
          else k xs g)"
| "rmatch (LazyStar a) xs g k =
     (case k xs g of
        Some v \<Rightarrow> Some v
      | None \<Rightarrow>
          (case xs of
             [] \<Rightarrow> None
           | x # xs' \<Rightarrow> if member_cset a x then rmatch (LazyStar a) xs' g k else None))"
| "rmatch (Group r) xs g k =
     rmatch r xs g (\<lambda>ys _. k ys (Some (take (length xs - length ys) xs)))"

definition lit :: "string \<Rightarrow> regex" where
  "lit s = foldr (\<lambda>c r. Seq (Sym (Chr c)) r) s Eps"

text \<open>A match object; \<open>group1\<close> is \<open>m.group(1)\<close>, \<open>None\<close> when the group took no part.\<close>

datatype match = Match (group1: "string option")

fun re_search :: "regex \<Rightarrow> string \<Rightarrow> match option" where
  "re_search r [] = rmatch r [] None (\<lambda>_ g. Some (Match g))"
| "re_search r (x # xs) =
     (case rmatch r (x # xs) None (\<lambda>_ g. Some (Match g)) of
        Some m \<Rightarrow> Some m
      | None \<Rightarrow> re_search r xs)"

section \<open>\<open>extract_json_payload\<close>\<close>

text \<open>
  \<^verbatim>\<open>re.search(r"```(?:json)?\s*([\s\S]*?)\s*```", text)\<close> and
  \<^verbatim>\<open>re.search(r'(\[.*?\])', text, re.DOTALL)\<close>.
\<close>

definition code_block_pattern :: regex where
  "code_block_pattern =
     Seq (lit ''```'')
       (Seq (Opt (lit ''json''))
         (Seq (Star Space)
           (Seq (Group (LazyStar Any))
             (Seq (Star Space) (lit ''```'')))))"

definition list_pattern :: regex where
  "list_pattern = Group (Seq (Sym (Chr CHR ''['')) (Seq (LazyStar Any) (Sym (Chr CHR '']''))))"

text \<open>
  The function raises \<open>ValueError\<close> in two places, told apart by their messages:
  \<open>EmptyResponse\<close> is "Model returned an empty response." and \<open>NoJsonFound p\<close> is
  "Could not extract JSON payload from model response: p...", with \<open>p = raw_text[:100]\<close>.
  \<open>AttributeError\<close> is what \<open>m.group(1).strip()\<close> raises when \<open>m.group(1)\<close> is \<open>None\<close>.
\<close>

datatype error = EmptyResponse | NoJsonFound string | AttributeError

definition group1_strip :: "match \<Rightarrow> error + string" where
  "group1_strip m = (case group1 m of None \<Rightarrow> Inl AttributeError | Some s \<Rightarrow> Inr (strip s))"

definition extract_json_payload :: "string \<Rightarrow> error + string" where
  "extract_json_payload raw_text =
     (let text = strip raw_text in
      if text = [] then Inl EmptyResponse
      else
        (case re_search code_block_pattern text of
           Some code_block_match \<Rightarrow> group1_strip code_block_match
         | None \<Rightarrow>
             if startswith text ''['' \<and> endswith text '']'' then Inr text
             else
               (case re_search list_pattern text of
                  Some list_match \<Rightarrow> group1_strip list_match
                | None \<Rightarrow> Inl (NoJsonFound (take 100 raw_text)))))"

section \<open>The three strategies, as the specification words them\<close>

text \<open>
  \<open>split_at_fence t\<close> cuts \<open>t\<close> at its first run of three backticks: the text before the
  fence and the text after it.
\<close>

fun split_at_fence :: "string \<Rightarrow> (string \<times> string) option" where
  "split_at_fence [] = None"
| "split_at_fence (c # cs) =
     (if prefix ''```'' (c # cs) then Some ([], drop 3 (c # cs))
      else map_option (apfst ((#) c)) (split_at_fence cs))"

definition untag :: "string \<Rightarrow> string" where
  "untag s = (if prefix ''json'' s then drop 4 s else s)"

text \<open>
  (a) A fenced block delimited by triple backticks, optionally tagged \<open>json\<close>: its inner
  text, trimmed.
\<close>

definition spec_fenced_block :: "string \<Rightarrow> string option" where
  "spec_fenced_block text =
     (case split_at_fence text of
        None \<Rightarrow> None
      | Some (before, opened) \<Rightarrow>
          (case split_at_fence (untag opened) of
             None \<Rightarrow> None
           | Some (inner, after) \<Rightarrow> Some (strip inner)))"

text \<open>(b) The trimmed text itself, if it starts with \<open>[\<close> and ends with \<open>]\<close>.\<close>

definition spec_whole_array :: "string \<Rightarrow> string option" where
  "spec_whole_array text =
     (if text \<noteq> [] \<and> hd text = CHR ''['' \<and> last text = CHR '']'' then Some text else None)"

text \<open>
  (c) The first non-greedy \<open>[...]\<close> span anywhere in the text: from the first \<open>[\<close> to the
  nearest \<open>]\<close> after it, line breaks included.
\<close>

definition spec_first_span :: "string \<Rightarrow> string option" where
  "spec_first_span text =
     (case dropWhile (\<lambda>c. c \<noteq> CHR ''['') text of
        [] \<Rightarrow> None
      | b # rest \<Rightarrow>
          if CHR '']'' \<in> set rest
          then Some (b # takeWhile (\<lambda>c. c \<noteq> CHR '']'') rest @ '']'')
          else None)"

text \<open>The strategies in their order: the first that succeeds gives the result.\<close>

definition spec_strategies :: "string \<Rightarrow> string option" where
  "spec_strategies text =
     (case spec_fenced_block text of
        Some s \<Rightarrow> Some s
      | None \<Rightarrow>
          (case spec_whole_array text of
             Some s \<Rightarrow> Some s
           | None \<Rightarrow> spec_first_span text))"

text \<open>The match object of a search that captured \<open>s\<close> in group 1, when there is one.\<close>

definition found :: "string option \<Rightarrow> match option" where
  "found r = map_option (\<lambda>s. Match (Some s)) r"

section \<open>The remote file service\<close>

text \<open>
  \<open>remote_file\<close> is the SDK's \<open>File\<close> object, with the fields the code reads;
  \<open>state_name\<close> is \<open>uploaded_file.state.name\<close>. \<open>uploaded_video\<close> is Streamlit's uploaded
  file: its \<open>name\<close> and the bytes of \<open>getvalue()\<close>.
\<close>

record remote_file =
  name :: string
  display_name :: "string option"
  state_name :: string
  uri :: string

record uploaded_video =
  video_name :: string
  video_bytes :: string

text \<open>
  What a call of the client raises: \<open>APIError\<close>, or any other \<open>Exception\<close>. The service is
  the environment of the program: \<open>files_upload\<close> answers an upload of a temporary file
  with the given suffix and bytes, \<open>files_get k\<close> is the answer to the \<open>k\<close>-th poll, and
  \<open>files_delete\<close> answers a delete by name. \<open>call\<close> records the requests the program sends.
\<close>

datatype exn = APIError string | OtherException string

record client =
  files_upload :: "string \<Rightarrow> string \<Rightarrow> exn + remote_file"
  files_get :: "nat \<Rightarrow> exn + remote_file"
  files_delete :: "string \<Rightarrow> exn + unit"

datatype call = FilesUpload string string | FilesGet string | FilesDelete string

section \<open>\<open>upload_and_process_video\<close>\<close>

text \<open>\<open>video_file.name.split('.')[-1] if '.' in video_file.name else 'mp4'\<close>\<close>

definition ext_of :: "string \<Rightarrow> string" where
  "ext_of n =
     (if CHR ''.'' \<in> set n then rev (takeWhile (\<lambda>c. c \<noteq> CHR ''.'') (rev n)) else ''mp4'')"

text \<open>
  The polling loop: while the state is \<open>PROCESSING\<close>, sleep and ask again. The loop has
  no bound, so it is a partial function: \<open>None\<close> is the run that never leaves the loop.
  An exception of \<open>client.files.get\<close> leaves the loop as \<open>Inl\<close>.
\<close>

partial_function (option) poll_loop ::
  "(nat \<Rightarrow> exn + remote_file) \<Rightarrow> nat \<Rightarrow> call list \<Rightarrow> remote_file \<Rightarrow>
     (call list \<times> (exn + remote_file)) option" where
  "poll_loop get k calls uploaded_file =
     (if state_name uploaded_file = ''PROCESSING''
      then (case get k of
              Inl e \<Rightarrow> Some (calls @ [FilesGet (name uploaded_file)], Inl e)
            | Inr f \<Rightarrow> poll_loop get (Suc k) (calls @ [FilesGet (name uploaded_file)]) f)
      else Some (calls, Inr uploaded_file))"

declare poll_loop.simps [code]

text \<open>
  How the function ends: \<open>Success f\<close> reports success and returns \<open>f\<close>; \<open>Failed f\<close> reports
  that processing failed and returns \<open>None\<close>; \<open>Caught e\<close> is one of the two \<open>except\<close>
  branches, which report the error and return \<open>None\<close>.
\<close>

datatype outcome = Success remote_file | Failed remote_file | Caught exn

fun returned :: "outcome \<Rightarrow> remote_file option" where
  "returned (Success f) = Some f"
| "returned (Failed f) = None"
| "returned (Caught e) = None"

definition upload_and_process_video ::
  "client \<Rightarrow> uploaded_video \<Rightarrow> (call list \<times> outcome) option" where
  "upload_and_process_video cl video_file =
     (let ext = ext_of (video_name video_file);
          sent = FilesUpload (''.'' @ ext) (video_bytes video_file)
      in case files_upload cl (''.'' @ ext) (video_bytes video_file) of
           Inl e \<Rightarrow> Some ([sent], Caught e)
         | Inr uploaded_file \<Rightarrow>
             (case poll_loop (files_get cl) 0 [sent] uploaded_file of
                None \<Rightarrow> None
              | Some (calls, Inl e) \<Rightarrow> Some (calls, Caught e)
              | Some (calls, Inr f) \<Rightarrow>
                  if state_name f = ''FAILED'' then Some (calls, Failed f)
                  else Some (calls, Success f)))"

section \<open>\<open>main\<close>: the upload slot\<close>

text \<open>
  Lines 120 to 136 of \<open>main\<close>. \<open>gemini_video_file\<close> is the slot
  \<open>st.session_state.gemini_video_file\<close>, \<open>None\<close> at first. The result is the list of
  requests sent and the slot afterwards; \<open>None\<close> when the upload never returns.
  The delete sits in \<open>try ... except Exception: pass\<close>: both of its answers go on alike.
\<close>

definition store ::
  "call list \<Rightarrow> (call list \<times> outcome) option \<Rightarrow> (call list \<times> remote_file option) option" where
  "store earlier r = map_option (\<lambda>(calls, out). (earlier @ calls, returned out)) r"

definition main_video_upload ::
  "client \<Rightarrow> remote_file option \<Rightarrow> uploaded_video option \<Rightarrow>
     (call list \<times> remote_file option) option" where
  "main_video_upload cl gemini_video_file uploaded =
     (case uploaded of
        None \<Rightarrow> Some ([], gemini_video_file)
      | Some video \<Rightarrow>
          (case gemini_video_file of
             None \<Rightarrow> store [] (upload_and_process_video cl video)
           | Some old \<Rightarrow>
               if display_name old \<noteq> Some (video_name video)
               then (case files_delete cl (name old) of
                       Inl e \<Rightarrow> store [FilesDelete (name old)] (upload_and_process_video cl video)
                     | Inr u \<Rightarrow> store [FilesDelete (name old)] (upload_and_process_video cl video))
               else Some ([], Some old)))"

section \<open>\<open>main\<close>: the structured branch\<close>

text \<open>
  Lines 192 to 200 of \<open>main\<close>, inside the outer \<open>try\<close> of lines 171 to 209. \<open>loads\<close> is
  \<open>json.loads\<close>: \<open>Inl msg\<close> is its \<open>JSONDecodeError\<close>, a \<open>ValueError\<close>. The result is what
  the page shows, in order. A \<open>ValueError\<close> gives the warning with the reason and the
  raw text; any other exception reaches the outer \<open>except Exception\<close>, which shows the
  error and the raw text. \<open>response_text\<close> is \<open>response.text\<close>, a \<open>str\<close>.
\<close>

datatype failure = ExtractionFailed error | MalformedJson string

datatype 'j shown =
    Json 'j
  | Code string
  | Warning failure
  | Markdown string
  | ErrorBox error

definition main_structured_detection :: "(string \<Rightarrow> string + 'j) \<Rightarrow> string \<Rightarrow> 'j shown list" where
  "main_structured_detection loads response_text =
     (case extract_json_payload response_text of
        Inl AttributeError \<Rightarrow> [ErrorBox AttributeError, Code response_text]
      | Inl ve \<Rightarrow> [Warning (ExtractionFailed ve), Markdown response_text]
      | Inr raw_json \<Rightarrow>
          (case loads raw_json of
             Inl msg \<Rightarrow> [Warning (MalformedJson msg), Markdown response_text]
           | Inr parsed \<Rightarrow> [Json parsed, Code raw_json]))"

text \<open>
  \<open>still_processing r\<close>: the answer \<open>r\<close> to a poll is a file whose state is \<open>PROCESSING\<close>.
  \<open>settled out\<close>: the state that goes with each way of ending.
\<close>

definition still_processing :: "exn + remote_file \<Rightarrow> bool" where
  "still_processing r = (case r of Inl e \<Rightarrow> False | Inr f \<Rightarrow> state_name f = ''PROCESSING'')"


section \<open>Example values\<close>

text \<open>
  A file that is being processed, a service that never finishes processing, and one
  whose third poll reports \<open>FAILED\<close>.
\<close>

definition processing_file :: remote_file where
  "processing_file =
     \<lparr>name = ''files/abc'', display_name = None, state_name = ''PROCESSING'', uri = ''u''\<rparr>"

definition failed_file :: remote_file where
  "failed_file = processing_file\<lparr>state_name := ''FAILED''\<rparr>"

definition stuck_client :: client where
  "stuck_client =
     \<lparr>files_upload = (\<lambda>suffix bytes. Inr processing_file),
      files_get = (\<lambda>k. Inr processing_file),
      files_delete = (\<lambda>n. Inr ())\<rparr>"

definition failing_client :: client where
  "failing_client =
     stuck_client\<lparr>files_get := (\<lambda>k. if k < 2 then Inr processing_file else Inr failed_file)\<rparr>"



text \<open>
  A service that answers every upload with a ready file whose display name is \<open>a.mp4\<close>,
  and raises on every delete. Two videos named \<open>a.mp4\<close> with different bytes, and one
  named \<open>b.mp4\<close>.
\<close>

definition active_file :: remote_file where
  "active_file =
     \<lparr>name = ''files/a1'', display_name = Some ''a.mp4'', state_name = ''ACTIVE'',
      uri = ''files/a1/uri''\<rparr>"

definition echo_client :: client where
  "echo_client =
     \<lparr>files_upload = (\<lambda>suffix bytes. Inr active_file),
      files_get = (\<lambda>k. Inr active_file),
      files_delete = (\<lambda>n. Inl (APIError ''404 not found''))\<rparr>"

text \<open>
  A service that is told nothing of the video's name and gives its files no display
  name: what \<open>client.files.upload(file=temp_file_path)\<close> of line 81 asks for.
\<close>

definition plain_file :: remote_file where
  "plain_file =
     \<lparr>name = ''files/p1'', display_name = None, state_name = ''ACTIVE'',
      uri = ''files/p1/uri''\<rparr>"

definition plain_client :: client where
  "plain_client =
     \<lparr>files_upload = (\<lambda>suffix bytes. Inr plain_file),
      files_get = (\<lambda>k. Inr plain_file),
      files_delete = (\<lambda>n. Inr ())\<rparr>"

definition a_video :: uploaded_video where
  "a_video = \<lparr>video_name = ''a.mp4'', video_bytes = ''old bytes''\<rparr>"


definition b_video :: uploaded_video where
  "b_video = \<lparr>video_name = ''b.mp4'', video_bytes = ''other bytes''\<rparr>"

text \<open>
  Parsed JSON, and a response of eleven well-formed annotation items. \<open>loads_eleven\<close>
  stands for \<open>json.loads\<close> on that response: the text parses to the eleven items.
\<close>

datatype json =
    JNull
  | JBool bool
  | JInt int
  | JString string
  | JArray "json list"
  | JObject "(string \<times> json) list"

fun n_items :: "json \<Rightarrow> nat" where
  "n_items (JArray xs) = length xs"
| "n_items j = 0"

definition one_item :: json where
  "one_item = JObject [(''point'', JArray [JInt 1, JInt 1]), (''label'', JString ''a'')]"

definition eleven_items :: json where
  "eleven_items = JArray (replicate 11 one_item)"

definition eleven_text :: string where
  "eleven_text =
       ''[{\"point\":[1,1],\"label\":\"a\"},'' @
       ''{\"point\":[1,1],\"label\":\"a\"},'' @
       ''{\"point\":[1,1],\"label\":\"a\"},'' @
       ''{\"point\":[1,1],\"label\":\"a\"},'' @
       ''{\"point\":[1,1],\"label\":\"a\"},'' @
       ''{\"point\":[1,1],\"label\":\"a\"},'' @
       ''{\"point\":[1,1],\"label\":\"a\"},'' @
       ''{\"point\":[1,1],\"label\":\"a\"},'' @
       ''{\"point\":[1,1],\"label\":\"a\"},'' @
       ''{\"point\":[1,1],\"label\":\"a\"},'' @
       ''{\"point\":[1,1],\"label\":\"a\"}]''"

definition loads_eleven :: "string \<Rightarrow> string + json" where
  "loads_eleven s = (if s = eleven_text then Inr eleven_items else Inl ''Expecting value'')"

section \<open>The searches in closed form\<close>

declare rmatch.simps [simp del]

lemmas rmatch_plain = rmatch.simps(1) rmatch.simps(2) rmatch.simps(3) rmatch.simps(4) rmatch.simps(7)

lemma rmatch_Star_Nil [simp]: "rmatch (Star a) [] g k = k [] g"
  by (simp add: rmatch.simps(5))

lemma rmatch_Star_Cons [simp]:
  "rmatch (Star a) (x # xs) g k =
     (if member_cset a x
      then (case rmatch (Star a) xs g k of Some v \<Rightarrow> Some v | None \<Rightarrow> k (x # xs) g)
      else k (x # xs) g)"
  by (simp add: rmatch.simps(5))

lemma rmatch_LazyStar_Nil [simp]: "rmatch (LazyStar a) [] g k = k [] g"
  by (simp add: rmatch.simps(6) split: option.splits)

lemma rmatch_LazyStar_Cons [simp]:
  "rmatch (LazyStar a) (x # xs) g k =
     (case k (x # xs) g of
        Some v \<Rightarrow> Some v
      | None \<Rightarrow> if member_cset a x then rmatch (LazyStar a) xs g k else None)"
  by (simp add: rmatch.simps(6) split: option.splits)

lemma lit_match: "rmatch (lit s) xs g k = (if prefix s xs then k (drop (length s) xs) g else None)"
  by (induction s arbitrary: xs) (auto simp: lit_def rmatch_plain split: list.splits)

lemma lit_json:
  "rmatch (lit ''json'') xs g k = (if prefix ''json'' xs then k (drop 4 xs) g else None)"
proof -
  have "length ''json'' = 4" by simp
  then show ?thesis by (simp only: lit_match)
qed

lemma lit_fence:
  "rmatch (lit ''```'') xs g k = (if prefix ''```'' xs then k (drop 3 xs) g else None)"
proof -
  have "length ''```'' = 3" by simp
  then show ?thesis by (simp only: lit_match)
qed

lemma backtick_not_space: "\<not> isspace CHR ''`''"
  by (simp add: isspace_def)

lemma split_at_fence_decomp:
  "split_at_fence t = Some (a, b) \<Longrightarrow> t = a @ ''```'' @ b"
proof (induction t arbitrary: a)
  case Nil
  then show ?case by simp
next
  case (Cons c cs)
  show ?case
  proof (cases "prefix ''```'' (c # cs)")
    case True
    with Cons.prems show ?thesis by (auto simp: prefix_def)
  next
    case False
    with Cons.prems obtain a' where "split_at_fence cs = Some (a', b)" and "a = c # a'"
      by (auto split: if_splits)
    with Cons.IH show ?thesis by simp
  qed
qed

lemma split_at_fence_tl_None:
  "split_at_fence (c # cs) = None \<Longrightarrow> split_at_fence cs = None"
  by (simp split: if_splits)

lemma split_at_fence_drop_None:
  "split_at_fence t = None \<Longrightarrow> split_at_fence (drop n t) = None"
proof (induction n arbitrary: t)
  case 0
  then show ?case by simp
next
  case (Suc n)
  show ?case
  proof (cases t)
    case Nil
    then show ?thesis by simp
  next
    case (Cons c cs)
    with Suc.prems have "split_at_fence cs = None"
      using split_at_fence_tl_None by blast
    with Suc.IH Cons show ?thesis by simp
  qed
qed

lemma split_at_fence_suffix_None:
  "split_at_fence t = None \<Longrightarrow> suffix s t \<Longrightarrow> split_at_fence s = None"
  by (metis split_at_fence_drop_None suffix_drop suffix_def append_eq_conv_conj)

lemma split_at_fence_skip:
  "c \<noteq> CHR ''`'' \<Longrightarrow> split_at_fence (c # cs) = map_option (apfst ((#) c)) (split_at_fence cs)"
  by simp

lemma split_at_fence_lstrip:
  "split_at_fence (dropWhile isspace t) = map_option (apfst (dropWhile isspace)) (split_at_fence t)"
proof (induction t)
  case Nil
  then show ?case by simp
next
  case (Cons c cs)
  show ?case
  proof (cases "isspace c")
    case True
    then have "c \<noteq> CHR ''`''" using backtick_not_space by auto
    with True Cons.IH show ?thesis
      by (cases "split_at_fence cs") (auto simp: split_at_fence_skip)
  next
    case False
    then show ?thesis
      by (cases "split_at_fence cs") auto
  qed
qed

lemma split_at_fence_untag:
  "split_at_fence (untag s) = None \<longleftrightarrow> split_at_fence s = None"
proof (cases "prefix ''json'' s")
  case True
  then obtain r where "s = ''json'' @ r" by (auto simp: prefix_def)
  then show ?thesis by (simp add: untag_def)
next
  case False
  then show ?thesis by (simp add: untag_def)
qed

lemma star_space_skip:
  assumes "\<And>ys. k (dropWhile isspace ys) g = None \<Longrightarrow> k ys g = None"
  shows "rmatch (Star Space) xs g k = k (dropWhile isspace xs) g"
proof (induction xs)
  case Nil
  then show ?case by simp
next
  case (Cons x xs)
  show ?case
  proof (cases "isspace x")
    case True
    show ?thesis
    proof (cases "k (dropWhile isspace xs) g")
      case None
      then have "k (x # xs) g = None" using assms [of "x # xs"] True by simp
      with None True Cons.IH show ?thesis by simp
    next
      case (Some v)
      with True Cons.IH show ?thesis by simp
    qed
  next
    case False
    then show ?thesis by simp
  qed
qed

lemma prefix_fence_lstrip:
  "prefix ''```'' ys \<Longrightarrow> dropWhile isspace ys = ys"
  using backtick_not_space by (cases ys) (auto)

lemma space_then_fence:
  "rmatch (Star Space) xs g (\<lambda>ws g'. rmatch (lit ''```'') ws g' k) =
     (if prefix ''```'' (dropWhile isspace xs) then k (drop 3 (dropWhile isspace xs)) g else None)"
proof -
  have "rmatch (Star Space) xs g (\<lambda>ws g'. rmatch (lit ''```'') ws g' k) =
        rmatch (lit ''```'') (dropWhile isspace xs) g k"
    by (rule star_space_skip) (auto simp: lit_fence prefix_fence_lstrip split: if_splits)
  also have "\<dots> = (if prefix ''```'' (dropWhile isspace xs)
                     then k (drop 3 (dropWhile isspace xs)) g else None)"
    by (simp only: lit_fence)
  finally show ?thesis .
qed

lemma rstrip_Cons:
  "\<not> (\<forall>c \<in> set (y # inner). isspace c) \<Longrightarrow> rstrip (y # inner) = y # rstrip inner"
  by (auto simp: rstrip_def dropWhile_append)

lemma rstrip_all_space: "\<forall>c \<in> set s. isspace c \<Longrightarrow> rstrip s = []"
  by (simp add: rstrip_def)

lemma split_at_fence_nofence:
  "\<not> prefix ''```'' (c # cs) \<Longrightarrow>
     split_at_fence (c # cs) = map_option (apfst ((#) c)) (split_at_fence cs)"
  by (simp only: split_at_fence.simps if_False)

lemma split_at_fence_here:
  "prefix ''```'' (c # cs) \<Longrightarrow> split_at_fence (c # cs) = Some ([], drop 3 (c # cs))"
  by (simp only: split_at_fence.simps if_True)

lemma fence_after_space_split:
  "prefix ''```'' (dropWhile isspace ys) \<Longrightarrow>
     \<exists>inner rest. split_at_fence ys = Some (inner, rest) \<and> (\<forall>c \<in> set inner. isspace c)"
proof (induction ys)
  case Nil
  then show ?case by simp
next
  case (Cons y ys)
  show ?case
  proof (cases "isspace y")
    case True
    then have "y \<noteq> CHR ''`''" using backtick_not_space by auto
    with True Cons show ?thesis by (auto simp: split_at_fence_skip)
  next
    case False
    with Cons.prems have "prefix ''```'' (y # ys)"
      by (simp only: dropWhile.simps if_False)
    then have "split_at_fence (y # ys) = Some ([], drop 3 (y # ys))"
      by (simp only: split_at_fence.simps if_True)
    then show ?thesis by simp
  qed
qed

lemma lazy_body_fence:
  "rmatch (LazyStar Any) ys g
      (\<lambda>zs _. if prefix ''```'' (dropWhile isspace zs)
               then Some (Match (Some (take (length (pre @ ys) - length zs) (pre @ ys))))
               else None) =
     (case split_at_fence ys of
        None \<Rightarrow> None
      | Some (inner, rest) \<Rightarrow> Some (Match (Some (pre @ rstrip inner))))"
proof (induction ys arbitrary: pre)
  case Nil
  then show ?case by simp
next
  case (Cons y ys)
  show ?case
  proof (cases "prefix ''```'' (dropWhile isspace (y # ys))")
    case True
    then obtain inner rest where
      "split_at_fence (y # ys) = Some (inner, rest)" "\<forall>c \<in> set inner. isspace c"
      using fence_after_space_split by blast
    with True show ?thesis by (simp add: rstrip_all_space)
  next
    case False
    then have nofence: "\<not> prefix ''```'' (y # ys)"
      using prefix_fence_lstrip [of "y # ys"] by auto
    have step: "rmatch (LazyStar Any) (y # ys) g
      (\<lambda>zs _. if prefix ''```'' (dropWhile isspace zs)
               then Some (Match (Some (take (length (pre @ y # ys) - length zs) (pre @ y # ys))))
               else None) =
      rmatch (LazyStar Any) ys g
      (\<lambda>zs _. if prefix ''```'' (dropWhile isspace zs)
               then Some (Match (Some (take (length ((pre @ [y]) @ ys) - length zs) ((pre @ [y]) @ ys))))
               else None)"
      using False by (simp cong: if_cong)
    show ?thesis
    proof (cases "split_at_fence ys")
      case None
      then show ?thesis unfolding step Cons.IH split_at_fence_nofence [OF nofence] by simp
    next
      case (Some p)
      obtain inner rest where p: "p = (inner, rest)" by (cases p)
      have ys: "ys = inner @ ''```'' @ rest"
        using Some p split_at_fence_decomp by blast
      have "\<not> (\<forall>c \<in> set (y # inner). isspace c)"
      proof
        assume "\<forall>c \<in> set (y # inner). isspace c"
        then have "dropWhile isspace (y # ys) = ''```'' @ rest"
          using backtick_not_space by (simp add: ys dropWhile_append3)
        with False show False by simp
      qed
      then have "rstrip (y # inner) = y # rstrip inner" by (rule rstrip_Cons)
      with Some p show ?thesis unfolding step Cons.IH split_at_fence_nofence [OF nofence] by simp
    qed
  qed
qed

lemma block_body_match:
  "rmatch (Seq (Group (LazyStar Any)) (Seq (Star Space) (lit ''```''))) ws g (\<lambda>_ c. Some (Match c)) =
     found (map_option (rstrip \<circ> fst) (split_at_fence ws))"
proof -
  have "rmatch (Seq (Group (LazyStar Any)) (Seq (Star Space) (lit ''```''))) ws g (\<lambda>_ c. Some (Match c)) =
        rmatch (LazyStar Any) ws g
          (\<lambda>zs _. if prefix ''```'' (dropWhile isspace zs)
                   then Some (Match (Some (take (length ([] @ ws) - length zs) ([] @ ws))))
                   else None)"
    by (simp add: rmatch_plain space_then_fence cong: if_cong)
  also have "\<dots> = (case split_at_fence ws of
                      None \<Rightarrow> None
                    | Some (inner, rest) \<Rightarrow> Some (Match (Some ([] @ rstrip inner))))"
    by (rule lazy_body_fence)
  also have "\<dots> = found (map_option (rstrip \<circ> fst) (split_at_fence ws))"
    by (simp add: found_def split: option.splits)
  finally show ?thesis .
qed

lemma block_tail_match:
  "rmatch (Seq (Star Space) (Seq (Group (LazyStar Any)) (Seq (Star Space) (lit ''```'')))) zs g
      (\<lambda>_ c. Some (Match c)) =
     found (map_option (strip \<circ> fst) (split_at_fence zs))"
proof -
  let ?k = "\<lambda>ws g'. rmatch (Seq (Group (LazyStar Any)) (Seq (Star Space) (lit ''```''))) ws g'
                        (\<lambda>_ c. Some (Match c))"
  have "rmatch (Star Space) zs g ?k = ?k (dropWhile isspace zs) g"
    by (rule star_space_skip)
       (simp add: block_body_match split_at_fence_lstrip found_def)
  also have "\<dots> = found (map_option (strip \<circ> fst) (split_at_fence zs))"
    by (simp add: block_body_match split_at_fence_lstrip found_def strip_def lstrip_def
          option.map_comp comp_def)
  finally show ?thesis by (simp add: rmatch.simps(3))
qed

lemma block_tag_match:
  "rmatch (Seq (Opt (lit ''json''))
       (Seq (Star Space) (Seq (Group (LazyStar Any)) (Seq (Star Space) (lit ''```''))))) ys g
      (\<lambda>_ c. Some (Match c)) =
     found (map_option (strip \<circ> fst) (split_at_fence (untag ys)))"
proof -
  let ?t = "Seq (Star Space) (Seq (Group (LazyStar Any)) (Seq (Star Space) (lit ''```'')))"
  have unfold: "rmatch (Seq (Opt (lit ''json'')) ?t) ys g (\<lambda>_ c. Some (Match c)) =
     (case (if prefix ''json'' ys
            then rmatch ?t (drop 4 ys) g (\<lambda>_ c. Some (Match c)) else None) of
        Some v \<Rightarrow> Some v
      | None \<Rightarrow> rmatch ?t ys g (\<lambda>_ c. Some (Match c)))"
    by (simp add: rmatch.simps(3) [of "Opt (lit ''json'')"] rmatch.simps(4) lit_json cong: if_cong)
  show ?thesis
  proof (cases "prefix ''json'' ys")
    case True
    then have u: "untag ys = drop 4 ys" by (simp add: untag_def)
    show ?thesis
    proof (cases "split_at_fence (drop 4 ys)")
      case None
      then have "split_at_fence ys = None"
        using split_at_fence_untag [of ys] u by simp
      with None True u show ?thesis
        unfolding unfold block_tail_match by (simp add: found_def)
    next
      case (Some p)
      with True u show ?thesis
        unfolding unfold block_tail_match by (simp add: found_def)
    qed
  next
    case False
    then show ?thesis
      unfolding unfold block_tail_match by (simp add: untag_def)
  qed
qed

lemma code_block_match_here:
  "rmatch code_block_pattern xs None (\<lambda>_ c. Some (Match c)) =
     (if prefix ''```'' xs
      then found (map_option (strip \<circ> fst) (split_at_fence (untag (drop 3 xs))))
      else None)"
proof -
  have "rmatch code_block_pattern xs None (\<lambda>_ c. Some (Match c)) =
        rmatch (lit ''```'') xs None
          (\<lambda>ys g. rmatch (Seq (Opt (lit ''json''))
             (Seq (Star Space) (Seq (Group (LazyStar Any)) (Seq (Star Space) (lit ''```''))))) ys g
             (\<lambda>_ c. Some (Match c)))"
    by (simp only: code_block_pattern_def rmatch.simps(3))
  then show ?thesis
    by (simp only: lit_fence block_tag_match)
qed

lemma spec_fenced_block_Some:
  assumes "spec_fenced_block t = Some s"
  shows "\<exists>a opened. t = a @ ''```'' @ opened \<and> split_at_fence opened \<noteq> None"
proof -
  from assms obtain a opened where cut: "split_at_fence t = Some (a, opened)"
    and inner: "split_at_fence (untag opened) \<noteq> None"
    by (auto simp: spec_fenced_block_def split: option.splits)
  from inner have "split_at_fence opened \<noteq> None"
    by (simp add: split_at_fence_untag)
  with split_at_fence_decomp [OF cut] show ?thesis by blast
qed

lemma spec_fenced_block_unclosed:
  assumes "split_at_fence opened = None" and "length pre < 3"
  shows "spec_fenced_block (pre @ opened) = None"
proof (rule ccontr)
  assume "spec_fenced_block (pre @ opened) \<noteq> None"
  then obtain s where "spec_fenced_block (pre @ opened) = Some s" by blast
  then obtain a opened' where eq: "pre @ opened = a @ ''```'' @ opened'"
    and closed: "split_at_fence opened' \<noteq> None"
    using spec_fenced_block_Some by blast
  have "suffix opened' (pre @ opened)" using eq by (simp add: suffix_def)
  moreover have "suffix opened (pre @ opened)" by (simp add: suffix_def)
  moreover have "length opened' \<le> length opened"
  proof -
    have "length (pre @ opened) = length (a @ ''```'' @ opened')" using eq by simp
    with assms(2) show ?thesis by simp
  qed
  ultimately have "suffix opened' opened" by (rule suffix_length_suffix)
  with assms(1) have "split_at_fence opened' = None" by (rule split_at_fence_suffix_None)
  with closed show False by simp
qed

lemma spec_fenced_block_Cons:
  "\<not> prefix ''```'' (x # xs) \<Longrightarrow> spec_fenced_block (x # xs) = spec_fenced_block xs"
  by (cases "split_at_fence xs")
     (auto simp: spec_fenced_block_def split_at_fence_nofence simp del: split_at_fence.simps)

lemma spec_fenced_block_here:
  "prefix ''```'' (x # xs) \<Longrightarrow>
     spec_fenced_block (x # xs) = map_option (strip \<circ> fst) (split_at_fence (untag (drop 3 (x # xs))))"
  by (cases "split_at_fence (untag (drop 3 (x # xs)))")
     (auto simp: spec_fenced_block_def split_at_fence_here simp del: split_at_fence.simps)

lemma search_code_block:
  "re_search code_block_pattern xs = found (spec_fenced_block xs)"
proof (induction xs)
  case Nil
  show ?case
    by (simp add: code_block_match_here spec_fenced_block_def found_def)
next
  case (Cons x xs)
  show ?case
  proof (cases "prefix ''```'' (x # xs)")
    case False
    then have "rmatch code_block_pattern (x # xs) None (\<lambda>_ c. Some (Match c)) = None"
      by (simp only: code_block_match_here if_False)
    then have "re_search code_block_pattern (x # xs) = re_search code_block_pattern xs"
      by simp
    also have "\<dots> = found (spec_fenced_block xs)" by (rule Cons.IH)
    also have "spec_fenced_block xs = spec_fenced_block (x # xs)"
      using spec_fenced_block_Cons [OF False] by (rule sym)
    finally show ?thesis .
  next
    case True
    let ?opened = "drop 3 (x # xs)"
    have here: "rmatch code_block_pattern (x # xs) None (\<lambda>_ c. Some (Match c)) =
                  found (map_option (strip \<circ> fst) (split_at_fence (untag ?opened)))"
      using True by (simp only: code_block_match_here if_True)
    have spec: "spec_fenced_block (x # xs) =
                  map_option (strip \<circ> fst) (split_at_fence (untag ?opened))"
      using True by (rule spec_fenced_block_here)
    show ?thesis
    proof (cases "split_at_fence (untag ?opened)")
      case (Some p)
      then show ?thesis
        unfolding re_search.simps here spec by (simp add: found_def)
    next
      case None
      then have unclosed: "split_at_fence ?opened = None"
        using split_at_fence_untag by blast
      from True obtain r where r: "x # xs = ''```'' @ r" by (auto simp: prefix_def)
      then have xs: "xs = ''``'' @ ?opened" by simp
      have "spec_fenced_block (''``'' @ ?opened) = None"
        by (rule spec_fenced_block_unclosed [OF unclosed]) simp
      with xs have "spec_fenced_block xs = None" by simp
      with None Cons.IH show ?thesis
        unfolding re_search.simps here spec by (simp add: found_def)
    qed
  qed
qed

subsection \<open>The list pattern\<close>

lemma lazy_body_bracket:
  "rmatch (LazyStar Any) ys g
      (\<lambda>zs _. case zs of
                 [] \<Rightarrow> None
               | z # zs' \<Rightarrow>
                   if z = CHR '']''
                   then Some (Match (Some (take (length (pre @ ys) - length zs') (pre @ ys))))
                   else None) =
     (if CHR '']'' \<in> set ys
      then Some (Match (Some (pre @ takeWhile (\<lambda>c. c \<noteq> CHR '']'') ys @ '']'')))
      else None)"
proof (induction ys arbitrary: pre)
  case Nil
  then show ?case by simp
next
  case (Cons y ys)
  show ?case
  proof (cases "y = CHR '']''")
    case True
    then show ?thesis by simp
  next
    case False
    have step: "rmatch (LazyStar Any) (y # ys) g
      (\<lambda>zs _. case zs of
                 [] \<Rightarrow> None
               | z # zs' \<Rightarrow>
                   if z = CHR '']''
                   then Some (Match (Some (take (length (pre @ y # ys) - length zs') (pre @ y # ys))))
                   else None) =
      rmatch (LazyStar Any) ys g
      (\<lambda>zs _. case zs of
                 [] \<Rightarrow> None
               | z # zs' \<Rightarrow>
                   if z = CHR '']''
                   then Some (Match (Some (take (length ((pre @ [y]) @ ys) - length zs') ((pre @ [y]) @ ys))))
                   else None)"
      using False by (simp cong: if_cong list.case_cong)
    from False show ?thesis unfolding step Cons.IH by simp
  qed
qed

lemma list_match_here:
  "rmatch list_pattern xs None (\<lambda>_ c. Some (Match c)) =
     (case xs of
        [] \<Rightarrow> None
      | x # xs' \<Rightarrow>
          if x = CHR ''['' \<and> CHR '']'' \<in> set xs'
          then Some (Match (Some (x # takeWhile (\<lambda>c. c \<noteq> CHR '']'') xs' @ '']'')))
          else None)"
proof (cases xs)
  case Nil
  then show ?thesis by (simp add: list_pattern_def rmatch_plain)
next
  case (Cons x xs')
  show ?thesis
  proof (cases "x = CHR ''[''")
    case False
    with Cons show ?thesis by (simp add: list_pattern_def rmatch_plain)
  next
    case True
    have "rmatch list_pattern xs None (\<lambda>_ c. Some (Match c)) =
      rmatch (LazyStar Any) xs' None
      (\<lambda>zs _. case zs of
                 [] \<Rightarrow> None
               | z # zs' \<Rightarrow>
                   if z = CHR '']''
                   then Some (Match (Some (take (length ([x] @ xs') - length zs') ([x] @ xs'))))
                   else None)"
      using True Cons by (simp add: list_pattern_def rmatch_plain cong: if_cong list.case_cong)
    with True Cons show ?thesis by (simp only: lazy_body_bracket) simp
  qed
qed

lemma search_list:
  "re_search list_pattern xs = found (spec_first_span xs)"
proof (induction xs)
  case Nil
  then show ?case by (simp add: list_match_here spec_first_span_def found_def)
next
  case (Cons x xs)
  show ?case
  proof (cases "x = CHR ''[''")
    case False
    with Cons.IH show ?thesis
      by (simp add: list_match_here spec_first_span_def)
  next
    case True
    show ?thesis
    proof (cases "CHR '']'' \<in> set xs")
      case True
      with \<open>x = CHR ''[''\<close> show ?thesis
        by (simp add: list_match_here spec_first_span_def found_def)
    next
      case False
      have "spec_first_span xs = None"
      proof (cases "dropWhile (\<lambda>c. c \<noteq> CHR ''['') xs")
        case Nil
        show ?thesis unfolding spec_first_span_def Nil by simp
      next
        case (Cons b rest)
        have "CHR '']'' \<notin> set rest"
        proof
          assume "CHR '']'' \<in> set rest"
          then have "CHR '']'' \<in> set (dropWhile (\<lambda>c. c \<noteq> CHR ''['') xs)"
            using Cons by simp
          then have "CHR '']'' \<in> set xs" by (rule set_dropWhileD)
          with False show False by simp
        qed
        then show ?thesis unfolding spec_first_span_def Cons by simp
      qed
      with False \<open>x = CHR ''[''\<close> Cons.IH show ?thesis
        by (simp add: list_match_here spec_first_span_def found_def)
    qed
  qed
qed

subsection \<open>Trimming\<close>

lemma rstrip_prefix: "prefix (rstrip t) t"
proof -
  have "suffix (dropWhile isspace (rev t)) (rev t)" by (rule suffix_dropWhile)
  then have "prefix (rev (dropWhile isspace (rev t))) (rev (rev t))"
    by (simp only: suffix_to_prefix)
  then show ?thesis by (simp add: rstrip_def)
qed

lemma rstrip_last: "rstrip t \<noteq> [] \<Longrightarrow> \<not> isspace (last (rstrip t))"
  by (simp add: rstrip_def last_rev hd_dropWhile)

lemma lstrip_hd: "lstrip s \<noteq> [] \<Longrightarrow> \<not> isspace (hd (lstrip s))"
  by (simp add: lstrip_def hd_dropWhile)

lemma strip_ends:
  assumes "strip s \<noteq> []"
  shows "\<not> isspace (hd (strip s))" and "\<not> isspace (last (strip s))"
proof -
  from assms show "\<not> isspace (last (strip s))"
    unfolding strip_def by (rule rstrip_last)
  have pre: "prefix (strip s) (lstrip s)" unfolding strip_def by (rule rstrip_prefix)
  with assms have ne: "lstrip s \<noteq> []" by auto
  from pre assms have "hd (strip s) = hd (lstrip s)"
    by (auto simp: prefix_def)
  with lstrip_hd [OF ne] show "\<not> isspace (hd (strip s))" by simp
qed

lemma strip_fixed:
  assumes "s \<noteq> [] \<Longrightarrow> \<not> isspace (hd s) \<and> \<not> isspace (last s)"
  shows "strip s = s"
proof (cases s rule: rev_cases)
  case Nil
  then show ?thesis by (simp add: strip_def lstrip_def rstrip_def)
next
  case (snoc ys y)
  with assms have h: "\<not> isspace (hd s)" and l: "\<not> isspace y" by auto
  have "lstrip s = s"
  proof (cases s)
    case Nil
    then show ?thesis by (simp add: lstrip_def)
  next
    case (Cons c cs)
    with h show ?thesis by (simp add: lstrip_def)
  qed
  moreover have "rstrip s = s" using l snoc by (simp add: rstrip_def)
  ultimately show ?thesis by (simp add: strip_def)
qed

lemma strip_strip: "strip (strip s) = strip s"
  by (rule strip_fixed) (simp add: strip_ends)

lemma bracket_not_space: "\<not> isspace CHR ''[''" "\<not> isspace CHR '']''"
  by (simp_all add: isspace_def)

lemma spec_first_span_shape:
  assumes "spec_first_span t = Some s"
  shows "\<exists>m. s = CHR ''['' # m @ '']''"
proof -
  from assms obtain b rest where d: "dropWhile (\<lambda>c. c \<noteq> CHR ''['') t = b # rest"
    and s: "s = b # takeWhile (\<lambda>c. c \<noteq> CHR '']'') rest @ '']''"
    by (auto simp: spec_first_span_def split: list.splits if_splits)
  have "\<not> (hd (dropWhile (\<lambda>c. c \<noteq> CHR ''['') t) \<noteq> CHR ''['')"
    by (rule hd_dropWhile) (simp add: d)
  with d have "b = CHR ''[''" by simp
  with s show ?thesis by blast
qed

lemma spec_first_span_strip:
  assumes "spec_first_span t = Some s"
  shows "strip s = s"
proof -
  from spec_first_span_shape [OF assms] obtain m where "s = CHR ''['' # m @ '']''" by blast
  then show ?thesis
    by (intro strip_fixed) (simp add: bracket_not_space)
qed

lemma whole_array_test:
  "startswith t ''['' \<and> endswith t '']'' \<longleftrightarrow> t \<noteq> [] \<and> hd t = CHR ''['' \<and> last t = CHR '']''"
proof -
  have "prefix ''['' t \<longleftrightarrow> t \<noteq> [] \<and> hd t = CHR ''[''"
    by (cases t) auto
  moreover have "suffix '']'' t \<longleftrightarrow> t \<noteq> [] \<and> last t = CHR '']''"
    by (cases t rule: rev_cases) (auto simp: suffix_def)
  ultimately show ?thesis by (auto simp: startswith_def endswith_def)
qed

lemma group1_strip_found:
  "(case found r of Some m \<Rightarrow> group1_strip m | None \<Rightarrow> e) =
     (case r of Some s \<Rightarrow> Inr (strip s) | None \<Rightarrow> e)"
  by (cases r) (simp_all add: found_def group1_strip_def)

lemma extract_json_payload_strategies:
  "extract_json_payload raw_text =
     (if strip raw_text = [] then Inl EmptyResponse
      else (case spec_strategies (strip raw_text) of
              Some s \<Rightarrow> Inr s
            | None \<Rightarrow> Inl (NoJsonFound (take 100 raw_text))))"
proof -
  let ?t = "strip raw_text"
  have fence: "\<And>s. spec_fenced_block ?t = Some s \<Longrightarrow> strip s = s"
    by (auto simp: spec_fenced_block_def strip_strip split: option.splits)
  show ?thesis
  proof (cases "spec_fenced_block ?t")
    case (Some s)
    with fence [OF Some] show ?thesis
      by (simp add: extract_json_payload_def Let_def search_code_block group1_strip_found
            spec_strategies_def)
  next
    case None
    show ?thesis
    proof (cases "startswith ?t ''['' \<and> endswith ?t '']''")
      case True
      with None show ?thesis
        using whole_array_test [of ?t]
        by (simp add: extract_json_payload_def Let_def search_code_block group1_strip_found
              spec_strategies_def spec_whole_array_def)
    next
      case False
      then have w: "spec_whole_array ?t = None"
        using whole_array_test [of ?t] by (simp add: spec_whole_array_def)
      show ?thesis
      proof (cases "spec_first_span ?t")
        case None
        with \<open>spec_fenced_block ?t = None\<close> False w show ?thesis
          by (auto simp: extract_json_payload_def Let_def search_code_block search_list
                group1_strip_found spec_strategies_def)
      next
        case (Some s)
        with \<open>spec_fenced_block ?t = None\<close> False w spec_first_span_strip [OF Some]
        show ?thesis
          by (auto simp: extract_json_payload_def Let_def search_code_block search_list
                group1_strip_found spec_strategies_def)
      qed
    qed
  qed
qed

section \<open>The claims about the extractor\<close>



lemma strip_sandwich: "\<exists>pre post. s = pre @ strip s @ post"
proof -
  have "s = takeWhile isspace s @ lstrip s" by (simp add: lstrip_def)
  moreover obtain post where "lstrip s = strip s @ post"
    using rstrip_prefix [of "lstrip s"] unfolding strip_def prefix_def by blast
  ultimately show ?thesis by metis
qed

lemma fenced_block_two_fences:
  assumes "spec_fenced_block t = Some s"
  shows "\<exists>a b c. t = a @ ''```'' @ b @ ''```'' @ c"
proof -
  from spec_fenced_block_Some [OF assms] obtain a opened where
    t: "t = a @ ''```'' @ opened" and "split_at_fence opened \<noteq> None" by blast
  then obtain b c where "split_at_fence opened = Some (b, c)" by auto
  then have "opened = b @ ''```'' @ c" by (rule split_at_fence_decomp)
  with t show ?thesis by blast
qed

lemma first_span_brackets:
  assumes "spec_first_span t = Some s"
  shows "\<exists>a b c. t = a @ ''['' @ b @ '']'' @ c"
proof -
  let ?P = "\<lambda>c. c \<noteq> CHR ''[''"
  from assms obtain b0 rest where d: "dropWhile ?P t = b0 # rest"
    and r: "CHR '']'' \<in> set rest"
    by (auto simp: spec_first_span_def split: list.splits if_splits)
  have "\<not> ?P (hd (dropWhile ?P t))" by (rule hd_dropWhile) (simp add: d)
  with d have b0: "b0 = CHR ''[''" by simp
  from r obtain r1 r2 where rest: "rest = r1 @ CHR '']'' # r2" by (auto dest: split_list)
  have "t = takeWhile ?P t @ dropWhile ?P t" by simp
  with d b0 rest have "t = takeWhile ?P t @ ''['' @ r1 @ '']'' @ r2" by simp
  then show ?thesis by blast
qed

lemma whole_array_brackets:
  assumes "spec_whole_array t = Some s"
  shows "\<exists>a b c. t = a @ ''['' @ b @ '']'' @ c"
proof -
  from assms have ne: "t \<noteq> []" and h: "hd t = CHR ''[''" and l: "last t = CHR '']''"
    by (auto simp: spec_whole_array_def split: if_splits)
  from ne h obtain t' where t: "t = CHR ''['' # t'" by (cases t) auto
  with l have ne': "t' \<noteq> []" by auto
  with t l have "last t' = CHR '']''" by simp
  with ne' have "t' = butlast t' @ '']''" by (metis append_butlast_last_id)
  with t have "t = [] @ ''['' @ butlast t' @ '']'' @ []" by simp
  then show ?thesis by blast
qed

lemma inside_strip:
  assumes "\<exists>a b c. strip s = a @ m @ b @ n @ c"
  shows "\<exists>a b c. s = a @ m @ b @ n @ c"
proof -
  from assms obtain a b c where "strip s = a @ m @ b @ n @ c" by blast
  moreover obtain pre post where "s = pre @ strip s @ post" using strip_sandwich by blast
  ultimately have "s = (pre @ a) @ m @ b @ n @ (c @ post)" by simp
  then show ?thesis by blast
qed

text \<open>
  Claim C4, amended. For every input that is not blank, that holds no two fences (no
  three backticks followed later by three backticks) and no \<open>[\<close> followed later by \<open>]\<close>,
  \<open>extract_json_payload\<close> fails with \<open>NoJsonFound\<close>, which carries the first 100
  characters of the original, untrimmed text.
\<close>

theorem nojson_without_fence_or_span:
  assumes "strip raw_text \<noteq> []"
    and "\<not> (\<exists>a b c. raw_text = a @ ''```'' @ b @ ''```'' @ c)"
    and "\<not> (\<exists>a b c. raw_text = a @ ''['' @ b @ '']'' @ c)"
  shows "extract_json_payload raw_text = Inl (NoJsonFound (take 100 raw_text)) \<and>
         length (take 100 raw_text) \<le> 100"
proof -
  let ?t = "strip raw_text"
  have "spec_fenced_block ?t = None"
    using assms(2) fenced_block_two_fences [of ?t] inside_strip [of raw_text "''```''" "''```''"]
    by (cases "spec_fenced_block ?t") auto
  moreover have "spec_whole_array ?t = None"
    using assms(3) whole_array_brackets [of ?t] inside_strip [of raw_text "''[''" "'']''"]
    by (cases "spec_whole_array ?t") auto
  moreover have "spec_first_span ?t = None"
    using assms(3) first_span_brackets [of ?t] inside_strip [of raw_text "''[''" "'']''"]
    by (cases "spec_first_span ?t") auto
  ultimately show ?thesis
    using assms(1) by (simp add: extract_json_payload_strategies spec_strategies_def)
qed

lemma no_backtick_no_fences:
  "CHR ''`'' \<notin> set t \<Longrightarrow> \<not> (\<exists>a b c. t = a @ ''```'' @ b @ ''```'' @ c)"
  by auto

lemma no_bracket_no_span:
  "CHR ''['' \<notin> set t \<Longrightarrow> \<not> (\<exists>a b c. t = a @ ''['' @ b @ '']'' @ c)"
  by auto

lemma split_at_fence_finds:
  "split_at_fence (u @ ''```'' @ v) \<noteq> None"
proof (induction u)
  case Nil
  show ?case by simp
next
  case (Cons c u)
  then show ?case by (cases "prefix ''```'' (c # u @ ''```'' @ v)") auto
qed

lemma split_at_fence_first:
  "split_at_fence t = Some (a', r') \<Longrightarrow> t = a @ ''```'' @ r \<Longrightarrow> length a' \<le> length a"
proof (induction t arbitrary: a a')
  case Nil
  then show ?case by simp
next
  case (Cons c cs)
  show ?case
  proof (cases "prefix ''```'' (c # cs)")
    case True
    with Cons.prems(1) have "a' = []" by (simp only: split_at_fence_here) simp
    then show ?thesis by simp
  next
    case False
    obtain a'' where a'': "split_at_fence cs = Some (a'', r')" "a' = c # a''"
      using split_at_fence_nofence [OF False] Cons.prems(1)
      by (cases "split_at_fence cs") auto
    from False Cons.prems(2) obtain a2 where a2: "a = c # a2" "cs = a2 @ ''```'' @ r"
      by (cases a) auto
    from Cons.IH [OF a''(1) a2(2)] a''(2) a2(1) show ?thesis by simp
  qed
qed

lemma two_fences_check:
  assumes "t = a @ ''```'' @ b @ ''```'' @ c"
  shows "\<exists>a' r'. split_at_fence t = Some (a', r') \<and> split_at_fence r' \<noteq> None"
proof -
  have "split_at_fence t \<noteq> None" unfolding assms by (rule split_at_fence_finds)
  then obtain a' r' where s: "split_at_fence t = Some (a', r')" by auto
  then have t: "t = a' @ ''```'' @ r'" by (rule split_at_fence_decomp)
  have len: "length a' \<le> length a" using s assms by (rule split_at_fence_first)
  have "suffix (b @ ''```'' @ c) t" unfolding assms by (simp add: suffix_def)
  moreover have "suffix r' t" using t by (simp add: suffix_def)
  moreover have "length (b @ ''```'' @ c) \<le> length r'"
  proof -
    have "length t = length a' + 3 + length r'" by (subst t) simp
    moreover have "length t = length a + 3 + length (b @ ''```'' @ c)" by (subst assms) simp
    ultimately show ?thesis using len by linarith
  qed
  ultimately have "suffix (b @ ''```'' @ c) r'" by (rule suffix_length_suffix)
  then obtain x where "r' = x @ b @ ''```'' @ c" by (auto simp: suffix_def)
  then have "r' = (x @ b) @ ''```'' @ c" by simp
  then have "split_at_fence r' \<noteq> None" by (simp only: split_at_fence_finds not_False_eq_True)
  with s show ?thesis by blast
qed

lemma span_check:
  assumes "t = a @ ''['' @ b @ '']'' @ c"
  shows "spec_first_span t \<noteq> None"
proof -
  let ?P = "\<lambda>c. c \<noteq> CHR ''[''"
  have "\<exists>r. dropWhile ?P t = CHR ''['' # r \<and> CHR '']'' \<in> set r"
  proof (cases "\<forall>x \<in> set a. ?P x")
    case True
    then have "dropWhile ?P t = CHR ''['' # b @ '']'' @ c"
      unfolding assms by (simp add: dropWhile_append)
    then show ?thesis by simp
  next
    case False
    then have d: "dropWhile ?P t = dropWhile ?P a @ ''['' @ b @ '']'' @ c"
      unfolding assms by (simp add: dropWhile_append)
    from False have ne: "dropWhile ?P a \<noteq> []" by (simp add: dropWhile_eq_Nil_conv)
    then obtain b0 r0 where a: "dropWhile ?P a = b0 # r0" by (cases "dropWhile ?P a") auto
    have "\<not> ?P (hd (dropWhile ?P a))" using ne by (rule hd_dropWhile)
    with a have "b0 = CHR ''[''" by simp
    with a d show ?thesis by simp
  qed
  then show ?thesis by (auto simp: spec_first_span_def)
qed

text \<open>An input with one fence that is never closed, and a \<open>]\<close> that comes before the \<open>[\<close>.\<close>

theorem nojson_without_fence_or_span_witness:
  "extract_json_payload ''Sorry ``` no list ] here ['' =
     Inl (NoJsonFound ''Sorry ``` no list ] here ['')"
proof -
  let ?t = "''Sorry ``` no list ] here [''"
  have "strip ?t \<noteq> []"
    by (simp add: strip_def lstrip_def rstrip_def isspace_def)
  moreover have "\<not> (\<exists>a b c. ?t = a @ ''```'' @ b @ ''```'' @ c)"
  proof
    assume "\<exists>a b c. ?t = a @ ''```'' @ b @ ''```'' @ c"
    then obtain a' r' where "split_at_fence ?t = Some (a', r')" "split_at_fence r' \<noteq> None"
      using two_fences_check by blast
    then show False by auto
  qed
  moreover have "\<not> (\<exists>a b c. ?t = a @ ''['' @ b @ '']'' @ c)"
  proof
    assume "\<exists>a b c. ?t = a @ ''['' @ b @ '']'' @ c"
    then have "spec_first_span ?t \<noteq> None" using span_check by blast
    then show False by (simp add: spec_first_span_def)
  qed
  ultimately show ?thesis
    using nojson_without_fence_or_span [of ?t] by simp
qed

text \<open>
  Claim C4 as stated fails twice. A fenced block without any bracket is returned, not
  refused; and a blank text fails with \<open>EmptyResponse\<close>, which carries no prefix.
\<close>

theorem nojson_counterexample:
  "\<not> (\<exists>a b c. ''```{}```'' = a @ ''['' @ b @ '']'' @ c) \<and>
   extract_json_payload ''```{}```'' = Inr ''{}'' \<and>
   \<not> (\<exists>a b c. '' '' = a @ ''['' @ b @ '']'' @ c) \<and>
   extract_json_payload '' '' = Inl EmptyResponse"
proof -
  have "\<not> (\<exists>a b c. ''```{}```'' = a @ ''['' @ b @ '']'' @ c)"
    by (rule no_bracket_no_span) simp
  moreover have "extract_json_payload ''```{}```'' = Inr ''{}''"
    by code_simp
  moreover have "\<not> (\<exists>a b c. '' '' = a @ ''['' @ b @ '']'' @ c)"
    by (rule no_bracket_no_span) simp
  moreover have "extract_json_payload '' '' = Inl EmptyResponse"
    by code_simp
  ultimately show ?thesis by blast
qed

lemma lstrip_append:
  "m \<noteq> [] \<Longrightarrow> \<not> isspace (hd m) \<Longrightarrow> lstrip (pre @ m @ post) = lstrip pre @ m @ post"
  by (cases m) (auto simp: lstrip_def dropWhile_append)

lemma rstrip_append:
  "m \<noteq> [] \<Longrightarrow> \<not> isspace (last m) \<Longrightarrow> rstrip (x @ m @ post) = x @ m @ rstrip post"
  by (cases m rule: rev_cases) (auto simp: rstrip_def dropWhile_append)

lemma strip_around:
  assumes "m \<noteq> []" "\<not> isspace (hd m)" "\<not> isspace (last m)"
  shows "strip (pre @ m @ post) = lstrip pre @ m @ rstrip post"
  using assms by (simp add: strip_def lstrip_append rstrip_append)

lemma prefix_fence_shorter:
  assumes "prefix ''```'' (c # a @ ''```'' @ r)"
  shows "prefix ''```'' (c # a @ ''``'')"
proof (cases a)
  case Nil
  with assms show ?thesis by (auto simp: prefix_def)
next
  case (Cons d a')
  with assms show ?thesis by (cases a') (auto simp: prefix_def)
qed

lemma split_at_fence_unique:
  "\<not> sublist ''```'' (a @ ''``'') \<Longrightarrow> split_at_fence (a @ ''```'' @ r) = Some (a, r)"
proof (induction a)
  case Nil
  show ?case by simp
next
  case (Cons c a)
  have eq: "(c # a) @ ''``'' = c # (a @ ''``'')" by simp
  from Cons.prems have "\<not> (prefix ''```'' (c # (a @ ''``'')) \<or> sublist ''```'' (a @ ''``''))"
    unfolding eq sublist_Cons_right .
  then have np: "\<not> prefix ''```'' (c # a @ ''``'')"
    and ns: "\<not> sublist ''```'' (a @ ''``'')"
    by blast+
  have "\<not> prefix ''```'' (c # a @ ''```'' @ r)"
    using np prefix_fence_shorter by blast
  then have "split_at_fence (c # a @ ''```'' @ r) =
               map_option (apfst ((#) c)) (split_at_fence (a @ ''```'' @ r))"
    by (rule split_at_fence_nofence)
  with Cons.IH [OF ns] show ?case by simp
qed

lemma untag_other:
  assumes "\<not> prefix ''json'' tag" and "r = [] \<or> hd r \<notin> set ''json''"
  shows "untag (tag @ r) = tag @ r"
proof -
  have "\<not> prefix ''json'' (tag @ r)"
  proof
    assume "prefix ''json'' (tag @ r)"
    then have "prefix ''json'' tag \<or> (\<exists>q. ''json'' = tag @ q \<and> prefix q r)"
      by (simp add: prefix_append)
    with assms(1) obtain q where q: "''json'' = tag @ q" "prefix q r" by blast
    with assms(1) have "q \<noteq> []" by auto
    with q(2) have "r \<noteq> []" "hd r = hd q" by (auto simp: prefix_def)
    moreover from \<open>q \<noteq> []\<close> have "hd q \<in> set q" by simp
    then have "hd q \<in> set ''json''" by (subst q(1)) simp
    ultimately show False using assms(2) by simp
  qed
  then show ?thesis by (simp add: untag_def)
qed

text \<open>
  Claim C10, amended. When the first fence of the text is followed by a language
  identifier that does not begin with \<open>json\<close>, then by the body and the closing fence,
  \<open>extract_json_payload\<close> returns the identifier together with the body, trimmed at the
  end. \<open>pre\<close> is the text before the block: it holds no fence. \<open>tag\<close> is the identifier:
  not empty, without whitespace, and followed by whitespace or by the closing fence.
\<close>

theorem fenced_block_keeps_other_tag:
  assumes raw: "raw_text = pre @ ''```'' @ tag @ body @ ''```'' @ post"
    and first_fence: "\<not> sublist ''```'' (pre @ ''``'')"
    and next_fence: "\<not> sublist ''```'' (tag @ body @ ''``'')"
    and tag: "tag \<noteq> []" "\<forall>c \<in> set tag. \<not> isspace c"
    and whole: "body = [] \<or> isspace (hd body)"
    and other: "\<not> prefix ''json'' tag"
  shows "extract_json_payload raw_text = Inr (tag @ rstrip body)"
proof -
  let ?block = "''```'' @ tag @ body @ ''```''"
  let ?t = "strip raw_text"
  have "raw_text = pre @ ?block @ post" using raw by simp
  then have t: "?t = lstrip pre @ ?block @ rstrip post"
    using strip_around [of ?block pre post] backtick_not_space by simp
  then have ne: "?t \<noteq> []" by simp
  have "suffix (lstrip pre @ ''``'') (pre @ ''``'')"
    by (simp add: lstrip_def suffix_dropWhile)
  then have "sublist (lstrip pre @ ''``'') (pre @ ''``'')" by (rule suffix_imp_sublist)
  with first_fence have "\<not> sublist ''```'' (lstrip pre @ ''``'')"
    using sublist_order.order.trans by blast
  then have cut1: "split_at_fence ?t = Some (lstrip pre, tag @ body @ ''```'' @ rstrip post)"
    unfolding t using split_at_fence_unique [of "lstrip pre" "tag @ body @ ''```'' @ rstrip post"]
    by simp
  have "body @ ''```'' @ rstrip post = [] \<or> hd (body @ ''```'' @ rstrip post) \<notin> set ''json''"
  proof (cases body)
    case Nil
    then show ?thesis by simp
  next
    case (Cons b bs)
    with whole have "isspace b" by simp
    then have "b \<notin> set ''json''" by (auto simp: isspace_def)
    with Cons show ?thesis by simp
  qed
  then have keep: "untag (tag @ body @ ''```'' @ rstrip post) = tag @ body @ ''```'' @ rstrip post"
    using untag_other [OF other] by blast
  have cut2: "split_at_fence (tag @ body @ ''```'' @ rstrip post) = Some (tag @ body, rstrip post)"
    using split_at_fence_unique [of "tag @ body" "rstrip post"] next_fence by simp
  have block: "spec_fenced_block ?t = Some (strip (tag @ body))"
    by (simp only: spec_fenced_block_def cut1 keep cut2 option.case prod.case)
  have "strip (tag @ body) = tag @ rstrip body"
  proof -
    from tag have h: "\<not> isspace (hd tag)" and l: "\<not> isspace (last tag)" by auto
    have "lstrip ([] @ tag @ body) = lstrip [] @ tag @ body"
      using tag(1) h by (rule lstrip_append)
    moreover have "rstrip ([] @ tag @ body) = [] @ tag @ rstrip body"
      using tag(1) l by (rule rstrip_append)
    ultimately show ?thesis by (simp add: strip_def lstrip_def)
  qed
  with block ne show ?thesis
    by (simp add: extract_json_payload_strategies spec_strategies_def)
qed

text \<open>The example of the claim: a block tagged \<open>python\<close>.\<close>

theorem fenced_block_keeps_other_tag_witness:
  "extract_json_payload ''```python\<newline>[1, 2]\<newline>```'' = Inr ''python\<newline>[1, 2]''"
  using fenced_block_keeps_other_tag
    [of "''```python\<newline>[1, 2]\<newline>```''" "[]" "''python''" "''\<newline>[1, 2]\<newline>''" "[]"]
  by (simp add: isspace_def rstrip_def sublist_Cons_right)

text \<open>
  Claim C10 as stated fails for an identifier that begins with \<open>json\<close>: of the tag
  \<open>jsonl\<close> the pattern removes the four characters \<open>json\<close> and returns the rest.
\<close>

theorem other_tag_counterexample:
  "extract_json_payload ''```jsonl\<newline>[1, 2]\<newline>```'' = Inr ''l\<newline>[1, 2]'' \<and>
   extract_json_payload ''```jsonl\<newline>[1, 2]\<newline>```'' \<noteq> Inr ''jsonl\<newline>[1, 2]''"
proof -
  have "extract_json_payload ''```jsonl\<newline>[1, 2]\<newline>```'' = Inr ''l\<newline>[1, 2]''"
    by code_simp
  then show ?thesis by simp
qed

section \<open>The polling loop\<close>

lemma poll_loop_done:
  "state_name f \<noteq> ''PROCESSING'' \<Longrightarrow> poll_loop get k calls f = Some (calls, Inr f)"
  by (subst poll_loop.simps) simp

lemma poll_loop_raised:
  "state_name f = ''PROCESSING'' \<Longrightarrow> get k = Inl e \<Longrightarrow>
     poll_loop get k calls f = Some (calls @ [FilesGet (name f)], Inl e)"
  by (subst poll_loop.simps) simp

lemma poll_loop_again:
  "state_name f = ''PROCESSING'' \<Longrightarrow> get k = Inr f' \<Longrightarrow>
     poll_loop get k calls f = poll_loop get (Suc k) (calls @ [FilesGet (name f)]) f'"
  by (subst poll_loop.simps) simp

lemma poll_loop_returns:
  "k \<le> n \<Longrightarrow> \<not> still_processing (get n) \<Longrightarrow> \<exists>r. poll_loop get k calls f = Some r"
proof (induction "n - k" arbitrary: k calls f)
  case 0
  then have nk: "n = k" by simp
  show ?case
  proof (cases "state_name f = ''PROCESSING''")
    case False
    then show ?thesis by (simp add: poll_loop_done)
  next
    case True
    show ?thesis
    proof (cases "get k")
      case (Inl e)
      with True show ?thesis by (simp add: poll_loop_raised)
    next
      case (Inr f')
      with 0(3) nk have "state_name f' \<noteq> ''PROCESSING''" by (simp add: still_processing_def)
      then have "poll_loop get (Suc k) (calls @ [FilesGet (name f)]) f' =
                   Some (calls @ [FilesGet (name f)], Inr f')"
        by (rule poll_loop_done)
      moreover have "poll_loop get k calls f = poll_loop get (Suc k) (calls @ [FilesGet (name f)]) f'"
        using True Inr by (rule poll_loop_again)
      ultimately show ?thesis by (simp only:) blast
    qed
  qed
next
  case (Suc d)
  show ?case
  proof (cases "state_name f = ''PROCESSING''")
    case False
    then show ?thesis by (simp add: poll_loop_done)
  next
    case True
    show ?thesis
    proof (cases "get k")
      case (Inl e)
      with True show ?thesis by (simp add: poll_loop_raised)
    next
      case (Inr f')
      from Suc.hyps(2) Suc.prems(1) have "d = n - Suc k" "Suc k \<le> n" by simp_all
      from Suc.hyps(1) [OF this Suc.prems(2)]
      obtain r where "poll_loop get (Suc k) (calls @ [FilesGet (name f)]) f' = Some r"
        by blast
      moreover have "poll_loop get k calls f = poll_loop get (Suc k) (calls @ [FilesGet (name f)]) f'"
        using True Inr by (rule poll_loop_again)
      ultimately show ?thesis by (simp only:) blast
    qed
  qed
qed

lemma poll_loop_exit:
  assumes "poll_loop get k calls f = Some r"
  shows "state_name f = ''PROCESSING'' \<longrightarrow> (\<exists>n\<ge>k. \<not> still_processing (get n))"
proof (rule poll_loop.raw_induct
    [where P = "\<lambda>get k calls f r.
                  state_name f = ''PROCESSING'' \<longrightarrow> (\<exists>n\<ge>k. \<not> still_processing (get n))"
       and get = get and k = k and calls = calls and uploaded_file = f and y = r], goal_cases)
  case (1 pl get k calls f r)
  show ?case
  proof
    assume p: "state_name f = ''PROCESSING''"
    show "\<exists>n\<ge>k. \<not> still_processing (get n)"
    proof (cases "get k")
      case (Inl e)
      then have "k \<le> k \<and> \<not> still_processing (get k)" by (simp add: still_processing_def)
      then show ?thesis by (rule exI)
    next
      case (Inr f')
      show ?thesis
      proof (cases "state_name f' = ''PROCESSING''")
        case False
        with Inr have "k \<le> k \<and> \<not> still_processing (get k)"
          by (simp add: still_processing_def)
        then show ?thesis by (rule exI)
      next
        case True
        from 1(2) p Inr have "pl get (Suc k) (calls @ [FilesGet (name f)]) f' = Some r" by simp
        from 1(1) [OF this] True obtain n where "Suc k \<le> n \<and> \<not> still_processing (get n)"
          by (elim impE exE) simp_all
        then have "k \<le> n \<and> \<not> still_processing (get n)" by simp
        then show ?thesis by (rule exI)
      qed
    qed
  qed
next
  case 2
  show ?case by (rule assms)
qed


lemma poll_loop_stuck:
  assumes "state_name f = ''PROCESSING''" and "\<forall>n. still_processing (get n)"
  shows "poll_loop get k calls f = None"
proof (cases "poll_loop get k calls f")
  case None
  then show ?thesis .
next
  case (Some r)
  from poll_loop_exit [OF Some] assms show ?thesis by blast
qed

lemma poll_loop_first_exit:
  assumes "state_name f = ''PROCESSING''" and "k \<le> n"
    and "\<forall>j. k \<le> j \<and> j < n \<longrightarrow> still_processing (get j)"
    and "\<not> still_processing (get n)"
  shows "poll_loop get k calls f =
           Some (calls @ FilesGet (name f) # map (\<lambda>j. FilesGet (name (projr (get j)))) [k..<n],
                 get n)"
  using assms
proof (induction "n - k" arbitrary: k calls f)
  case 0
  then have nk: "n = k" by simp
  show ?case
  proof (cases "get k")
    case (Inl e)
    have "poll_loop get k calls f = Some (calls @ [FilesGet (name f)], Inl e)"
      using "0.prems"(1) Inl by (rule poll_loop_raised)
    with nk Inl show ?thesis by simp
  next
    case (Inr f')
    with "0.prems"(4) nk have "state_name f' \<noteq> ''PROCESSING''"
      by (simp add: still_processing_def)
    then have "poll_loop get (Suc k) (calls @ [FilesGet (name f)]) f' =
                 Some (calls @ [FilesGet (name f)], Inr f')"
      by (rule poll_loop_done)
    moreover have "poll_loop get k calls f = poll_loop get (Suc k) (calls @ [FilesGet (name f)]) f'"
      using "0.prems"(1) Inr by (rule poll_loop_again)
    ultimately show ?thesis using nk Inr by simp
  qed
next
  case (Suc d)
  from Suc.hyps(2) Suc.prems(2) have lt: "k < n" and d: "d = n - Suc k" and le: "Suc k \<le> n"
    by simp_all
  from Suc.prems(3) lt have "still_processing (get k)" by simp
  then obtain f' where f': "get k = Inr f'" "state_name f' = ''PROCESSING''"
    by (cases "get k") (auto simp: still_processing_def)
  have rest: "\<forall>j. Suc k \<le> j \<and> j < n \<longrightarrow> still_processing (get j)"
    using Suc.prems(3) by simp
  have "poll_loop get k calls f = poll_loop get (Suc k) (calls @ [FilesGet (name f)]) f'"
    using Suc.prems(1) f'(1) by (rule poll_loop_again)
  also have "\<dots> = Some ((calls @ [FilesGet (name f)]) @ FilesGet (name f') #
                        map (\<lambda>j. FilesGet (name (projr (get j)))) [Suc k..<n], get n)"
    using d f'(2) le rest Suc.prems(4) by (rule Suc.hyps(1))
  also have "(calls @ [FilesGet (name f)]) @ FilesGet (name f') #
               map (\<lambda>j. FilesGet (name (projr (get j)))) [Suc k..<n] =
             calls @ FilesGet (name f) # map (\<lambda>j. FilesGet (name (projr (get j)))) [k..<n]"
    using lt f'(1) by (simp add: upt_conv_Cons)
  finally show ?case .
qed


section \<open>The claims about the upload and the structured branch\<close>

subsection \<open>What \<open>upload_and_process_video\<close> returns\<close>

lemma poll_loop_calls:
  assumes "poll_loop get k calls f = Some r"
  shows "prefix calls (fst r)"
proof (rule poll_loop.raw_induct
    [where P = "\<lambda>get k calls f r. prefix calls (fst r)"
       and get = get and k = k and calls = calls and uploaded_file = f and y = r], goal_cases)
  case (1 pl get k calls f r)
  show ?case
  proof (cases "state_name f = ''PROCESSING''")
    case False
    with 1(2) show ?thesis by auto
  next
    case True
    show ?thesis
    proof (cases "get k")
      case (Inl e)
      with True 1(2) show ?thesis by auto
    next
      case (Inr f')
      with True 1(2) have "pl get (Suc k) (calls @ [FilesGet (name f)]) f' = Some r" by simp
      then have "prefix (calls @ [FilesGet (name f)]) (fst r)" by (rule 1(1))
      then show ?thesis by (rule append_prefixD)
    qed
  qed
next
  case 2
  show ?case by (rule assms)
qed



lemma upload_first_call:
  assumes "upload_and_process_video cl video = Some (calls, out)"
  shows "\<exists>rest. calls = FilesUpload (''.'' @ ext_of (video_name video)) (video_bytes video) # rest"
proof (cases "files_upload cl (''.'' @ ext_of (video_name video)) (video_bytes video)")
  case (Inl e)
  with assms show ?thesis by (auto simp: upload_and_process_video_def Let_def)
next
  case (Inr f)
  let ?sent = "FilesUpload (''.'' @ ext_of (video_name video)) (video_bytes video)"
  from assms Inr obtain r where r: "poll_loop (files_get cl) 0 [?sent] f = Some r"
    by (cases "poll_loop (files_get cl) 0 [?sent] f")
       (auto simp: upload_and_process_video_def Let_def)
  from assms Inr r have "fst r = calls"
    by (cases r) (auto simp: upload_and_process_video_def Let_def split: sum.splits if_splits)
  with poll_loop_calls [OF r] have "prefix [?sent] calls" by simp
  then show ?thesis by (auto simp: prefix_def)
qed

lemma upload_ignores_delete:
  "upload_and_process_video (cl\<lparr>files_delete := d\<rparr>) video = upload_and_process_video cl video"
  by (simp add: upload_and_process_video_def Let_def cong: sum.case_cong)

lemma stuck_client_never_returns:
  "upload_and_process_video stuck_client video = None"
proof -
  have "poll_loop (files_get stuck_client) 0 calls processing_file = None" for calls
    by (rule poll_loop_stuck)
       (simp_all add: processing_file_def stuck_client_def still_processing_def)
  then show ?thesis
    by (simp add: upload_and_process_video_def Let_def stuck_client_def)
qed


lemma extract_never_attribute_error:
  "extract_json_payload t \<noteq> Inl AttributeError"
  by (simp add: extract_json_payload_strategies split: option.splits)

subsection \<open>The polling loop has no bound\<close>

text \<open>
  Claim C2, amended. For an asset in state \<open>PROCESSING\<close>, polled from the \<open>k\<close>-th poll on:
  if the \<open>n\<close>-th poll is the first that answers with a state other than \<open>PROCESSING\<close> or
  raises, the loop returns at that poll, with that answer as its result, after one
  request per poll from \<open>k\<close> to \<open>n\<close>; if every poll answers \<open>PROCESSING\<close>, the loop never
  returns. So it returns if and only if some poll leaves \<open>PROCESSING\<close>: it has no timeout.
\<close>

theorem await_ready_returns_at_first_exit:
  assumes "state_name asset = ''PROCESSING''"
  shows "(\<forall>n. k \<le> n \<and> (\<forall>j. k \<le> j \<and> j < n \<longrightarrow> still_processing (get j)) \<and>
              \<not> still_processing (get n) \<longrightarrow>
            poll_loop get k calls asset =
              Some (calls @ FilesGet (name asset) #
                      map (\<lambda>j. FilesGet (name (projr (get j)))) [k..<n], get n)) \<and>
         ((\<forall>n\<ge>k. still_processing (get n)) \<longrightarrow> poll_loop get k calls asset = None) \<and>
         ((\<exists>r. poll_loop get k calls asset = Some r) \<longleftrightarrow> (\<exists>n\<ge>k. \<not> still_processing (get n)))"
proof (intro conjI allI impI)
  fix n
  assume "k \<le> n \<and> (\<forall>j. k \<le> j \<and> j < n \<longrightarrow> still_processing (get j)) \<and>
          \<not> still_processing (get n)"
  then have "k \<le> n" and "\<forall>j. k \<le> j \<and> j < n \<longrightarrow> still_processing (get j)"
    and "\<not> still_processing (get n)"
    by simp_all
  with assms show "poll_loop get k calls asset =
               Some (calls @ FilesGet (name asset) #
                       map (\<lambda>j. FilesGet (name (projr (get j)))) [k..<n], get n)"
    by (rule poll_loop_first_exit)
next
  assume stuck: "\<forall>n\<ge>k. still_processing (get n)"
  show "poll_loop get k calls asset = None"
  proof (cases "poll_loop get k calls asset")
    case None
    then show ?thesis .
  next
    case (Some r)
    from poll_loop_exit [OF Some] assms obtain n where "k \<le> n" "\<not> still_processing (get n)"
      by (elim impE exE conjE)
    with stuck show ?thesis by simp
  qed
next
  show "(\<exists>r. poll_loop get k calls asset = Some r) \<longleftrightarrow> (\<exists>n\<ge>k. \<not> still_processing (get n))"
  proof
    assume "\<exists>r. poll_loop get k calls asset = Some r"
    then obtain r where "poll_loop get k calls asset = Some r" by blast
    from poll_loop_exit [OF this] assms show "\<exists>n\<ge>k. \<not> still_processing (get n)" by blast
  next
    assume "\<exists>n\<ge>k. \<not> still_processing (get n)"
    then obtain n where "k \<le> n" "\<not> still_processing (get n)" by blast
    then show "\<exists>r. poll_loop get k calls asset = Some r" by (rule poll_loop_returns)
  qed
qed

text \<open>A service whose third poll reports \<open>FAILED\<close>: three requests, then the failed file.\<close>

theorem await_ready_returns_at_first_exit_witness:
  "state_name processing_file = ''PROCESSING'' \<and>
   poll_loop (files_get failing_client) 0 [] processing_file =
     Some ([FilesGet ''files/abc'', FilesGet ''files/abc'', FilesGet ''files/abc''],
           Inr failed_file)"
proof -
  have p: "state_name processing_file = ''PROCESSING''" by (simp add: processing_file_def)
  have first: "(0::nat) \<le> 2 \<and>
      (\<forall>j. 0 \<le> j \<and> j < 2 \<longrightarrow> still_processing (files_get failing_client j)) \<and>
      \<not> still_processing (files_get failing_client 2)"
    by (simp add: failing_client_def stuck_client_def still_processing_def failed_file_def
          processing_file_def)
  have polls: "[0..<2] = [0, Suc 0]" by (simp add: upt_rec)
  from await_ready_returns_at_first_exit [OF p, of 0 "files_get failing_client" "[]"] first
  have "poll_loop (files_get failing_client) 0 [] processing_file =
          Some ([] @ FilesGet (name processing_file) #
                  map (\<lambda>j. FilesGet (name (projr (files_get failing_client j)))) [0..<2],
                files_get failing_client 2)"
    by blast
  then show ?thesis
    by (simp add: polls p failing_client_def stuck_client_def processing_file_def)
qed

text \<open>
  Claim C2 as stated fails: when every poll answers \<open>PROCESSING\<close> the loop never returns,
  and nothing turns the overrun into an error.
\<close>

theorem await_ready_counterexample:
  "state_name processing_file = ''PROCESSING'' \<and>
   poll_loop (files_get stuck_client) 0 [] processing_file = None"
proof -
  have "poll_loop (files_get stuck_client) 0 [] processing_file = None"
    by (rule poll_loop_stuck)
       (simp_all add: processing_file_def stuck_client_def still_processing_def)
  then show ?thesis by (simp add: processing_file_def)
qed

subsection \<open>The ways the upload ends\<close>





subsection \<open>The upload slot\<close>

text \<open>
  The service is sent the extension of the name and the bytes, never the name itself
  (line 81 uploads a temporary file). Its answer is the same for two videos that differ
  in name only, so the file it stores can carry the name of one of them at most.
\<close>

lemma upload_reads_ext_and_bytes:
  "ext_of (video_name v) = ext_of (video_name w) \<Longrightarrow> video_bytes v = video_bytes w \<Longrightarrow>
     upload_and_process_video cl v = upload_and_process_video cl w"
  by (simp add: upload_and_process_video_def)

lemma service_names_one_video_at_most:
  assumes "main_video_upload cl None (Some v) = Some (calls, Some stored)"
    and "main_video_upload cl None (Some w) = Some (calls', Some stored')"
    and "ext_of (video_name v) = ext_of (video_name w)" and "video_bytes v = video_bytes w"
    and "video_name v \<noteq> video_name w"
  shows "display_name stored \<noteq> Some (video_name v) \<or> display_name stored' \<noteq> Some (video_name w)"
proof -
  have "main_video_upload cl None (Some v) = main_video_upload cl None (Some w)"
    using upload_reads_ext_and_bytes [OF assms(3) assms(4)]
    by (simp add: main_video_upload_def)
  with assms(1) assms(2) have "stored = stored'" by simp
  with assms(5) show ?thesis by auto
qed


text \<open>
  Claim C5 fails on the code. The guard of line 126 compares the display name of the
  stored file with the name of the video, but line 81 never gives the service that
  name. With a service that leaves the display name empty, the second submission of
  the same video, bytes unchanged, deletes the stored file and uploads again.
\<close>

theorem resubmission_uploads_again:
  "main_video_upload plain_client None (Some a_video) =
     Some ([FilesUpload ''.mp4'' ''old bytes''], Some plain_file) \<and>
   main_video_upload plain_client (Some plain_file) (Some a_video) =
     Some ([FilesDelete ''files/p1'', FilesUpload ''.mp4'' ''old bytes''], Some plain_file)"
proof -
  have "main_video_upload plain_client None (Some a_video) =
          Some ([FilesUpload ''.mp4'' ''old bytes''], Some plain_file)"
    by code_simp
  moreover have "main_video_upload plain_client (Some plain_file) (Some a_video) =
          Some ([FilesDelete ''files/p1'', FilesUpload ''.mp4'' ''old bytes''], Some plain_file)"
    by code_simp
  ultimately show ?thesis by simp
qed



text \<open>
  Claim C8. When the display name of the asset in the slot differs from the name of the
  submitted video, the program asks for the old file to be deleted and then uploads
  the new one. Whatever the delete answers or raises (\<open>d\<close>), the run is the run of the
  upload, with the delete request in front of the upload request.
\<close>

theorem delete_errors_are_swallowed:
  assumes "display_name old \<noteq> Some (video_name video)"
  shows "main_video_upload (cl\<lparr>files_delete := d\<rparr>) (Some old) (Some video) =
           map_option (\<lambda>(calls, out). (FilesDelete (name old) # calls, returned out))
             (upload_and_process_video cl video) \<and>
         (\<forall>calls slot.
            main_video_upload (cl\<lparr>files_delete := d\<rparr>) (Some old) (Some video) = Some (calls, slot) \<longrightarrow>
            (\<exists>rest. calls = FilesDelete (name old) #
                       FilesUpload (''.'' @ ext_of (video_name video)) (video_bytes video) # rest))"
proof -
  have eq: "main_video_upload (cl\<lparr>files_delete := d\<rparr>) (Some old) (Some video) =
           map_option (\<lambda>(calls, out). (FilesDelete (name old) # calls, returned out))
             (upload_and_process_video cl video)"
    using assms
    by (cases "d (name old)") (simp_all add: main_video_upload_def store_def upload_ignores_delete)
  have "\<exists>rest. calls = FilesDelete (name old) #
                  FilesUpload (''.'' @ ext_of (video_name video)) (video_bytes video) # rest"
    if "main_video_upload (cl\<lparr>files_delete := d\<rparr>) (Some old) (Some video) = Some (calls, slot)"
    for calls slot
  proof -
    from that eq obtain c out where up: "upload_and_process_video cl video = Some (c, out)"
      and calls: "calls = FilesDelete (name old) # c"
      by auto
    from upload_first_call [OF up] calls show ?thesis by auto
  qed
  with eq show ?thesis by blast
qed

text \<open>A service whose delete raises: the new video is uploaded all the same.\<close>

theorem delete_errors_are_swallowed_witness:
  "files_delete echo_client (name active_file) = Inl (APIError ''404 not found'') \<and>
   main_video_upload echo_client (Some active_file) (Some b_video) =
     Some ([FilesDelete ''files/a1'', FilesUpload ''.mp4'' ''other bytes''], Some active_file)"
proof -
  have run: "upload_and_process_video echo_client b_video =
               Some ([FilesUpload ''.mp4'' ''other bytes''], Success active_file)"
    by code_simp
  have same: "echo_client\<lparr>files_delete := files_delete echo_client\<rparr> = echo_client" by simp
  from delete_errors_are_swallowed
    [where old = active_file and video = b_video and cl = echo_client
       and d = "files_delete echo_client"] run same
  show ?thesis by (simp add: active_file_def b_video_def echo_client_def)
qed

subsection \<open>The structured branch\<close>

text \<open>
  Claim C1, amended. The structured branch validates and truncates nothing: when the
  payload is found and parsed, the page shows the parsed value as \<open>json.loads\<close> returned
  it, with all its items, and the whole payload text; it records no diagnostic.
\<close>

theorem structured_result_is_whole_parse:
  assumes "extract_json_payload response_text = Inr raw_json"
    and "loads raw_json = Inr parsed"
  shows "main_structured_detection loads response_text = [Json parsed, Code raw_json]"
  using assms by (simp add: main_structured_detection_def)

text \<open>A fenced array of two items, with a parser that accepts it and one that rejects it.\<close>

theorem structured_result_is_whole_parse_witness:
  "main_structured_detection loads_eleven ''Here: ```json [1, 2] ```'' =
     [Warning (MalformedJson ''Expecting value''), Markdown ''Here: ```json [1, 2] ```''] \<and>
   main_structured_detection (\<lambda>s. Inr (JArray [JInt 1, JInt 2]) :: string + json)
      ''Here: ```json [1, 2] ```'' =
     [Json (JArray [JInt 1, JInt 2]), Code ''[1, 2]'']"
proof -
  have ex: "extract_json_payload ''Here: ```json [1, 2] ```'' = Inr ''[1, 2]''" by code_simp
  have "main_structured_detection loads_eleven ''Here: ```json [1, 2] ```'' =
     [Warning (MalformedJson ''Expecting value''), Markdown ''Here: ```json [1, 2] ```'']"
    by (simp add: main_structured_detection_def ex loads_eleven_def eleven_text_def)
  with structured_result_is_whole_parse
    [OF ex, of "\<lambda>s. Inr (JArray [JInt 1, JInt 2])" "JArray [JInt 1, JInt 2]"]
  show ?thesis by simp
qed

text \<open>
  Claim C1 as stated fails: of a response of eleven well-formed items, all eleven are
  shown.
\<close>

theorem no_cap_counterexample:
  "main_structured_detection loads_eleven eleven_text = [Json eleven_items, Code eleven_text] \<and>
   n_items eleven_items = 11"
proof -
  have "extract_json_payload eleven_text = Inr eleven_text" by code_simp
  then show ?thesis
    by (simp add: main_structured_detection_def loads_eleven_def eleven_items_def)
qed

text \<open>
  Claim C7. In the structured branch, when \<open>extract_json_payload\<close> fails, or when it
  succeeds and \<open>json.loads\<close> rejects the payload, the page shows a warning with the reason
  and then the original response text; no exception leaves the branch.
\<close>

theorem structured_failures_show_raw_text:
  "(extract_json_payload response_text = Inl e \<longrightarrow>
      main_structured_detection loads response_text =
        [Warning (ExtractionFailed e), Markdown response_text]) \<and>
   (extract_json_payload response_text = Inr raw_json \<and> loads raw_json = Inl msg \<longrightarrow>
      main_structured_detection loads response_text =
        [Warning (MalformedJson msg), Markdown response_text])"
proof (intro conjI impI)
  assume e: "extract_json_payload response_text = Inl e"
  with extract_never_attribute_error [of response_text] have "e \<noteq> AttributeError" by auto
  with e show "main_structured_detection loads response_text =
        [Warning (ExtractionFailed e), Markdown response_text]"
    by (cases e) (simp_all add: main_structured_detection_def)
next
  assume "extract_json_payload response_text = Inr raw_json \<and> loads raw_json = Inl msg"
  then show "main_structured_detection loads response_text =
        [Warning (MalformedJson msg), Markdown response_text]"
    by (simp add: main_structured_detection_def)
qed

text \<open>A response without a list, a blank response, and a list that is not JSON.\<close>

theorem structured_failures_show_raw_text_witness:
  "main_structured_detection loads_eleven ''no list here'' =
     [Warning (ExtractionFailed (NoJsonFound ''no list here'')), Markdown ''no list here''] \<and>
   main_structured_detection loads_eleven ''   '' =
     [Warning (ExtractionFailed EmptyResponse), Markdown ''   ''] \<and>
   main_structured_detection loads_eleven ''[1, 2oops]'' =
     [Warning (MalformedJson ''Expecting value''), Markdown ''[1, 2oops]'']"
proof -
  have a: "extract_json_payload ''no list here'' = Inl (NoJsonFound ''no list here'')"
    by code_simp
  have b: "extract_json_payload ''   '' = Inl EmptyResponse" by code_simp
  have c: "extract_json_payload ''[1, 2oops]'' = Inr ''[1, 2oops]''" by code_simp
  have l: "loads_eleven ''[1, 2oops]'' = Inl ''Expecting value''"
    by (simp add: loads_eleven_def eleven_text_def)
  from structured_failures_show_raw_text [of "''no list here''" "NoJsonFound ''no list here''" loads_eleven]
    structured_failures_show_raw_text [of "''   ''" EmptyResponse loads_eleven]
    structured_failures_show_raw_text [of "''[1, 2oops]''" _ loads_eleven "''[1, 2oops]''" "''Expecting value''"]
    a b c l
  show ?thesis by simp
qed

end
